theory Spec2Isabelle
  imports Main "HOL-Library.Word"
begin

unbundle bit_operations_syntax

section \<open>Bit-banged debug serial output (otavio.h)\<close>

text \<open>
  The repository holds two versions of the header. \<^verbatim>\<open>src/fw/otavio.h\<close> waits on the
  free-running cycle counter \<^verbatim>\<open>DWT->CYCCNT\<close>, masks interrupts around the
  transmission and uses \<^verbatim>\<open>CPU_CYCLES = 145*5\<close>; its functions keep their names here.
  \<^verbatim>\<open>src/unnamed/part_000\<close> waits in a counted busy loop, never touches the interrupt
  mask and uses \<^verbatim>\<open>CPU_CYCLES = 145\<close>; its functions carry the suffix \<open>_p0\<close>.
\<close>

subsection \<open>Hardware state and what an observer of the pin sees\<close>

type_synonym u8 = "8 word"
type_synonym u32 = "32 word"

text \<open>
  \<open>Drive v\<close>: the pin is driven to level \<open>v\<close> (\<open>True\<close> is high).
  \<open>Wait c\<close>: one call \<^verbatim>\<open>CpuDelay(c)\<close>, during which the pin keeps its level.
\<close>

datatype event = Drive bool | Wait u32

text \<open>
  \<open>PRIMASK\<close> is bit 0 of the Cortex-M register of that name: \<open>True\<close> means that all
  maskable interrupts are disabled. \<open>pin\<close> is the level of the output pin. \<open>trace\<close>
  is the history of pin writes and delays, each entry paired with the value of
  \<open>PRIMASK\<close> at the moment it happened.
\<close>

record hw =
  PRIMASK :: bool
  pin :: bool
  trace :: "(bool \<times> event) list"

text \<open>The CMSIS intrinsics \<^verbatim>\<open>__get_PRIMASK\<close>, \<^verbatim>\<open>__disable_irq\<close> (cpsid i) and
  \<^verbatim>\<open>__enable_irq\<close> (cpsie i).\<close>

definition get_PRIMASK :: "hw \<Rightarrow> u32" where
  "get_PRIMASK s = (if PRIMASK s then 1 else 0)"

definition disable_irq :: "hw \<Rightarrow> hw" where
  "disable_irq s = s\<lparr>PRIMASK := True\<rparr>"

definition enable_irq :: "hw \<Rightarrow> hw" where
  "enable_irq s = s\<lparr>PRIMASK := False\<rparr>"

text \<open>mbed's \<^verbatim>\<open>DigitalOut::write(int value)\<close>: the pin is set when \<open>value\<close> is
  non-zero and cleared otherwise. The C \<^verbatim>\<open>int\<close> is its 32-bit pattern.\<close>

definition db2_write :: "u32 \<Rightarrow> hw \<Rightarrow> hw" where
  "db2_write v s = s\<lparr>pin := (v \<noteq> 0), trace := trace s @ [(PRIMASK s, Drive (v \<noteq> 0))]\<rparr>"

text \<open>The constructor \<^verbatim>\<open>DigitalOut db2(pin, value)\<close> makes the pin an output and
  drives it to \<open>value\<close>.\<close>

definition DigitalOut :: "u32 \<Rightarrow> hw \<Rightarrow> hw" where
  "DigitalOut v s = db2_write v s"

text \<open>
  Inside \<^verbatim>\<open>SendDebug\<close> a call \<^verbatim>\<open>CpuDelay(c)\<close> is one blocking interval, recorded
  with its argument. What the body of \<^verbatim>\<open>CpuDelay\<close> does with the cycle counter is
  modelled on its own further down.
\<close>

definition CpuDelay_call :: "u32 \<Rightarrow> hw \<Rightarrow> hw" where
  "CpuDelay_call c s = s\<lparr>trace := trace s @ [(PRIMASK s, Wait c)]\<rparr>"

subsection \<open>SendDebug\<close>

text \<open>
  \<^verbatim>\<open>for (int i = 0; i < 8; i++) { db2.write((*str >> i) & 0x01); CpuDelay(CPU_CYCLES); }\<close>
  The character \<open>c\<close> is \<^verbatim>\<open>*str\<close>; \<^verbatim>\<open>char\<close> is unsigned on the ARM target and is
  promoted to \<^verbatim>\<open>int\<close> before the shift.
\<close>

function data_bits :: "u32 \<Rightarrow> u8 \<Rightarrow> nat \<Rightarrow> hw \<Rightarrow> hw" where
  "data_bits cyc c i s =
     (if i < 8
      then data_bits cyc c (i + 1)
             (CpuDelay_call cyc (db2_write (drop_bit i (ucast c :: u32) AND 1) s))
      else s)"
  by pat_completeness auto
termination
  by (relation "measure (\<lambda>(cyc, c, i, s). 8 - i)") auto

declare data_bits.simps [simp del]

text \<open>
  The \<^verbatim>\<open>while (*str) { ...; str++; }\<close> loop. \<open>str\<close> is the bytes of the object the
  pointer points into, from the pointer on; \<open>cyc\<close> is the constant \<^verbatim>\<open>CPU_CYCLES\<close>
  in scope. Reading \<^verbatim>\<open>*str\<close> past the last byte of the object is undefined
  behaviour: \<open>None\<close>.
\<close>

fun SendDebug_loop :: "u32 \<Rightarrow> u8 list \<Rightarrow> hw \<Rightarrow> hw option" where
  "SendDebug_loop cyc [] s = None"
| "SendDebug_loop cyc (c # str) s =
     (if c \<noteq> 0
      then SendDebug_loop cyc str
             (CpuDelay_call cyc (db2_write 1
               (data_bits cyc c 0
                 (CpuDelay_call cyc (db2_write 0 s)))))
      else Some s)"

definition CPU_CYCLES :: u32 where
  "CPU_CYCLES = 145 * 5"

definition CPU_CYCLES_p0 :: u32 where
  "CPU_CYCLES_p0 = 145"

text \<open>\<^verbatim>\<open>SendDebug\<close> of \<^verbatim>\<open>src/fw/otavio.h\<close>.\<close>

definition SendDebug :: "u8 list \<Rightarrow> hw \<Rightarrow> hw option" where
  "SendDebug str s0 =
     (let primask = get_PRIMASK s0;
          s1 = disable_irq s0;
          s2 = DigitalOut 1 s1
      in case SendDebug_loop CPU_CYCLES str s2 of
           None \<Rightarrow> None
         | Some s3 \<Rightarrow>
             (let s4 = db2_write 1 s3
              in Some (if primask = 0 then enable_irq s4 else s4)))"

text \<open>\<^verbatim>\<open>SendDebug\<close> of \<^verbatim>\<open>src/unnamed/part_000\<close>.\<close>

definition SendDebug_p0 :: "u8 list \<Rightarrow> hw \<Rightarrow> hw option" where
  "SendDebug_p0 str s0 =
     (let s2 = DigitalOut 1 s0
      in case SendDebug_loop CPU_CYCLES_p0 str s2 of
           None \<Rightarrow> None
         | Some s3 \<Rightarrow> Some (db2_write 1 s3))"

subsection \<open>What is on the wire\<close>

text \<open>The events a call added to the trace, from the state before and the state after.\<close>

definition sent :: "hw \<Rightarrow> hw \<Rightarrow> event list" where
  "sent s s' = map snd (drop (length (trace s)) (trace s'))"

text \<open>The interrupt mask under which each of these events happened.\<close>

definition sent_masks :: "hw \<Rightarrow> hw \<Rightarrow> bool list" where
  "sent_masks s s' = map fst (drop (length (trace s)) (trace s'))"

text \<open>
  The level the pin holds during each bit-time slot (each \<open>Wait\<close>), in order, for a pin
  that starts at level \<open>p\<close>.
\<close>

fun slot_levels :: "bool \<Rightarrow> event list \<Rightarrow> bool list" where
  "slot_levels p [] = []"
| "slot_levels p (Drive v # es) = slot_levels v es"
| "slot_levels p (Wait c # es) = p # slot_levels p es"

text \<open>The delays requested, in order.\<close>

fun waits :: "event list \<Rightarrow> u32 list" where
  "waits [] = []"
| "waits (Drive v # es) = waits es"
| "waits (Wait c # es) = c # waits es"

text \<open>
  The frame of the specification, in its words: start bit low, then for bit index 0..7
  the level \<open>(byte >> index) & 1\<close>, then stop bit high; as the events of one frame
  with bit-time \<open>cyc\<close>, and as the ten levels.
\<close>

definition spec_frame_events :: "u32 \<Rightarrow> u8 \<Rightarrow> event list" where
  "spec_frame_events cyc b =
     [Drive False, Wait cyc]
     @ concat (map (\<lambda>i. [Drive (drop_bit i b AND 1 = 1), Wait cyc]) [0..<8])
     @ [Drive True, Wait cyc]"

definition spec_frame_levels :: "u8 \<Rightarrow> bool list" where
  "spec_frame_levels b = [False] @ map (\<lambda>i. drop_bit i b AND 1 = 1) [0..<8] @ [True]"

text \<open>The level of the pin just before the first time it is driven low.\<close>

fun level_before_start :: "bool \<Rightarrow> event list \<Rightarrow> bool option" where
  "level_before_start p [] = None"
| "level_before_start p (Drive v # es) = (if v then level_before_start v es else Some p)"
| "level_before_start p (Wait c # es) = level_before_start p es"

text \<open>
  A run of calls, one after the other, of a send function (\<open>SendDebug\<close> or
  \<open>SendDebug_p0\<close>): the states outside any call, in order: the state before the first
  call, then the state each call returns.
\<close>

fun idle_states :: "(u8 list \<Rightarrow> hw \<Rightarrow> hw option) \<Rightarrow> u8 list list \<Rightarrow> hw \<Rightarrow> hw list option" where
  "idle_states send [] s = Some [s]"
| "idle_states send (str # strs) s =
     (case send str s of
        None \<Rightarrow> None
      | Some s' \<Rightarrow> map_option (Cons s) (idle_states send strs s'))"

subsection \<open>A receiver\<close>

text \<open>
  An asynchronous-serial receiver at the sender's baud rate, 8 data bits, no parity,
  1 stop bit, least-significant bit first, as the specification words it. It samples
  the line once per bit-time: a high level outside a frame is the idle line; a low
  level starts a frame, the next eight samples are the data bits, and the ninth must be
  the high stop bit, else the frame is in error.
\<close>

definition rx_byte :: "bool list \<Rightarrow> u8" where
  "rx_byte bits = horner_sum of_bool 2 bits"

fun uart_rx :: "bool list \<Rightarrow> u8 list option" where
  "uart_rx [] = Some []"
| "uart_rx (True # ls) = uart_rx ls"
| "uart_rx (False # ls) =
     (if length ls < 9 then None
      else if \<not> ls ! 8 then None
      else map_option (Cons (rx_byte (take 8 ls))) (uart_rx (drop 9 ls)))"

definition printable :: "u8 \<Rightarrow> bool" where
  "printable c = (0x20 \<le> c \<and> c \<le> 0x7E)"

subsection \<open>SendDebugf\<close>

text \<open>
  \<^verbatim>\<open>snprintf(buffer, n, format, args...)\<close> of the C library. \<open>rendered\<close> is the
  text that the format and its arguments expand to. Of it, at most \<open>n - 1\<close> bytes are
  stored at the start of the buffer, followed by a NUL; the rest of the buffer keeps
  what it held. Nothing is stored when \<open>n\<close> is 0.
\<close>

definition snprintf :: "u8 list \<Rightarrow> nat \<Rightarrow> u8 list \<Rightarrow> u8 list" where
  "snprintf buffer n rendered =
     (if n = 0 then buffer
      else take (n - 1) rendered @ [0]
           @ drop (length (take (n - 1) rendered) + 1) buffer)"

text \<open>
  \<^verbatim>\<open>SendDebugf\<close>, the same text in both versions of the header. \<open>buffer\<close> is what
  the 128 bytes of the uninitialised local array happen to hold.
\<close>

definition SendDebugf :: "u8 list \<Rightarrow> u8 list \<Rightarrow> hw \<Rightarrow> hw option" where
  "SendDebugf buffer rendered s = SendDebug (snprintf buffer 128 rendered) s"

definition SendDebugf_p0 :: "u8 list \<Rightarrow> u8 list \<Rightarrow> hw \<Rightarrow> hw option" where
  "SendDebugf_p0 buffer rendered s = SendDebug_p0 (snprintf buffer 128 rendered) s"

subsection \<open>CpuDelay\<close>

text \<open>
  Time is the number \<open>t\<close> of CPU cycles since the counter was reset;
  \<^verbatim>\<open>DWT->CYCCNT\<close> is a 32-bit register and reads \<open>t mod 2 ^ 32\<close>.
\<close>

definition CYCCNT :: "nat \<Rightarrow> u32" where
  "CYCCNT t = of_nat t"

text \<open>
  \<^verbatim>\<open>while (DWT->CYCCNT < target_cycle) { __NOP(); }\<close> of \<^verbatim>\<open>src/fw/otavio.h\<close>.
  One pass of the loop (read, compare, NOP, branch) takes \<open>pass\<close> cycles. The result is
  the time at which the loop is left; a loop that is never left is \<open>None\<close>.
\<close>

partial_function (option) CpuDelay_wait :: "nat \<Rightarrow> u32 \<Rightarrow> nat \<Rightarrow> nat option" where
  "CpuDelay_wait pass target_cycle t =
     (if CYCCNT t < target_cycle
      then CpuDelay_wait pass target_cycle (t + pass)
      else Some t)"

text \<open>\<^verbatim>\<open>CpuDelay\<close> of \<^verbatim>\<open>src/fw/otavio.h\<close>, entered at time \<open>t\<close>.\<close>

definition CpuDelay :: "nat \<Rightarrow> u32 \<Rightarrow> nat \<Rightarrow> nat option" where
  "CpuDelay pass cycles t =
     (let start_cycle = CYCCNT t;
          target_cycle = start_cycle + cycles
      in CpuDelay_wait pass target_cycle t)"

text \<open>
  The time at which a run of events of \<^verbatim>\<open>src/fw/otavio.h\<close> ends when it begins at
  time \<open>t\<close>: each \<open>Wait c\<close> is one call \<^verbatim>\<open>CpuDelay(c)\<close>, and the pin writes are
  taken to cost no time.
\<close>

fun elapse :: "nat \<Rightarrow> event list \<Rightarrow> nat \<Rightarrow> nat option" where
  "elapse pass [] t = Some t"
| "elapse pass (Drive v # es) t = elapse pass es t"
| "elapse pass (Wait c # es) t =
     (case CpuDelay pass c t of None \<Rightarrow> None | Some t' \<Rightarrow> elapse pass es t')"

text \<open>
  \<^verbatim>\<open>CpuDelay\<close> of \<^verbatim>\<open>src/unnamed/part_000\<close>:
  \<^verbatim>\<open>for (volatile uint32_t i = 0; i < cycles; i++) { __NOP(); }\<close>.
  The result is the number of NOPs executed.
\<close>

function CpuDelay_p0_loop :: "u32 \<Rightarrow> u32 \<Rightarrow> nat \<Rightarrow> nat" where
  "CpuDelay_p0_loop cycles i nops =
     (if i < cycles then CpuDelay_p0_loop cycles (i + 1) (nops + 1) else nops)"
  by pat_completeness auto
termination
proof (relation "measure (\<lambda>(cycles, i, nops). unat cycles - unat i)")
  show "wf (measure (\<lambda>(cycles, i, nops). unat cycles - unat i))" by simp
next
  fix cycles i :: u32 and nops :: nat
  assume lt: "i < cycles"
  then have "unat i < unat cycles" by (simp add: word_less_nat_alt)
  moreover have "unat (i + 1) = unat i + 1"
    using lt by (metis (no_types, lifting) add.commute add_0 inc_i inc_le
        unat_plus_simple unsigned_0 unsigned_1 word_gt_0)
  ultimately show "((cycles, i + 1, nops + 1), (cycles, i, nops))
      \<in> measure (\<lambda>(cycles, i, nops). unat cycles - unat i)"
    by simp
qed

declare CpuDelay_p0_loop.simps [simp del]

definition CpuDelay_p0 :: "u32 \<Rightarrow> nat" where
  "CpuDelay_p0 cycles = CpuDelay_p0_loop cycles 0 0"

section \<open>Properties of the transmit loop\<close>

lemma upt_0_8: "[0..<8] = [0, 1, 2, 3, 4, 5, 6, 7::nat]"
  by (simp add: upt_rec)

lemma byte_bit_test: "(drop_bit i (b::u8) AND 1 = 1) = bit b i"
  by (simp add: and_one_eq bit_iff_odd_drop_bit mod2_eq_if)

lemma int_bit_test:
  assumes "i < 8"
  shows "(drop_bit i (ucast (c::u8) :: u32) AND 1 \<noteq> 0) = bit c i"
proof -
  have "(drop_bit i (ucast c :: u32) AND 1 \<noteq> 0) = odd (drop_bit i (ucast c :: u32))"
    by (simp add: and_one_eq mod2_eq_if)
  also have "\<dots> = bit (ucast c :: u32) i"
    by (simp add: bit_iff_odd_drop_bit)
  also have "\<dots> = bit c i"
    using assms by (simp add: bit_ucast_iff)
  finally show ?thesis .
qed

text \<open>Were \<^verbatim>\<open>char\<close> signed, the promoted value and the arithmetic shift would select
  the same bit.\<close>

lemma signed_char_same_bit:
  "i < 8 \<Longrightarrow>
   signed_drop_bit i (scast (c::u8) :: u32) AND 1 = drop_bit i (ucast c :: u32) AND 1"
  by (rule bit_word_eqI) (auto simp add: bit_simps)

lemma data_bits_from:
  "i \<le> 8 \<Longrightarrow> data_bits cyc c i s =
     s\<lparr>pin := (if i < 8 then bit c 7 else pin s),
       trace := trace s @ map (Pair (PRIMASK s))
                  (concat (map (\<lambda>j. [Drive (bit c j), Wait cyc]) [i..<8]))\<rparr>"
proof (induction cyc c i s rule: data_bits.induct)
  case (1 cyc c i s)
  show ?case
  proof (cases "i < 8")
    case True
    then have le: "i + 1 \<le> 8" by simp
    show ?thesis
      apply (subst data_bits.simps)
      using True "1.IH" [OF True le]
      apply (cases "i = 7")
       apply (simp_all add: int_bit_test CpuDelay_call_def db2_write_def upt_conv_Cons [of i 8])
      done
  next
    case False
    with "1.prems" have "i = 8" by simp
    then show ?thesis by (subst data_bits.simps) simp
  qed
qed

text \<open>One pass through the body of the \<^verbatim>\<open>while\<close> loop adds one frame.\<close>

lemma frame_step:
  "CpuDelay_call cyc (db2_write 1 (data_bits cyc c 0 (CpuDelay_call cyc (db2_write 0 s))))
   = s\<lparr>pin := True, trace := trace s @ map (Pair (PRIMASK s)) (spec_frame_events cyc c)\<rparr>"
  by (simp add: data_bits_from CpuDelay_call_def db2_write_def spec_frame_events_def byte_bit_test)

lemma SendDebug_loop_terminated:
  "0 \<notin> set pre \<Longrightarrow>
   SendDebug_loop cyc (pre @ 0 # rest) s =
     Some (s\<lparr>pin := (if pre = [] then pin s else True),
             trace := trace s @ map (Pair (PRIMASK s)) (concat (map (spec_frame_events cyc) pre))\<rparr>)"
proof (induction pre arbitrary: s)
  case Nil
  show ?case by simp
next
  case (Cons c pre)
  then have c: "c \<noteq> 0" and pre: "0 \<notin> set pre" by auto
  show ?case
    using c by (simp add: frame_step Cons.IH [OF pre])
qed

lemma SendDebug_loop_unterminated:
  "0 \<notin> set str \<Longrightarrow> SendDebug_loop cyc str s = None"
  by (induction str arbitrary: s) auto

section \<open>Properties of SendDebug\<close>

lemma SendDebug_terminated_state:
  assumes "0 \<notin> set pre"
  shows "SendDebug (pre @ 0 # rest) s =
     Some (s\<lparr>pin := True,
             trace := trace s @ map (Pair True)
               ([Drive True] @ concat (map (spec_frame_events CPU_CYCLES) pre) @ [Drive True])\<rparr>)"
proof (cases "PRIMASK s")
  case True
  then show ?thesis
    by (simp add: SendDebug_def get_PRIMASK_def disable_irq_def DigitalOut_def
        db2_write_def SendDebug_loop_terminated [OF assms])
next
  case False
  then show ?thesis
    by (simp add: SendDebug_def get_PRIMASK_def disable_irq_def enable_irq_def
        DigitalOut_def db2_write_def SendDebug_loop_terminated [OF assms])
qed

lemma SendDebug_p0_terminated_state:
  assumes "0 \<notin> set pre"
  shows "SendDebug_p0 (pre @ 0 # rest) s =
     Some (s\<lparr>pin := True,
             trace := trace s @ map (Pair (PRIMASK s))
               ([Drive True] @ concat (map (spec_frame_events CPU_CYCLES_p0) pre) @ [Drive True])\<rparr>)"
  by (simp add: SendDebug_p0_def DigitalOut_def db2_write_def
      SendDebug_loop_terminated [OF assms])

lemma sent_added:
  "sent s (s\<lparr>pin := p, trace := trace s @ map (Pair m) es\<rparr>) = es"
  by (simp add: sent_def comp_def)

lemma sent_masks_added:
  "sent_masks s (s\<lparr>pin := p, trace := trace s @ map (Pair m) es\<rparr>) = replicate (length es) m"
  by (simp add: sent_masks_def comp_def map_replicate_const)

lemma spec_frame_events_length [simp]: "length (spec_frame_events cyc b) = 20"
  by (simp add: spec_frame_events_def upt_0_8)

lemma frames_length [simp]: "length (concat (map (spec_frame_events cyc) str)) = 20 * length str"
  by (induction str) simp_all

text \<open>
  What a call on a NUL-terminated string does, in both versions: it returns, the
  interrupt mask is what it was, the pin is high, and the trace has grown by one write of
  the idle level, the frames of the bytes before the NUL, and one more write of the idle
  level; in \<^verbatim>\<open>src/fw/otavio.h\<close> all of it with interrupts masked, in
  \<^verbatim>\<open>src/unnamed/part_000\<close> all of it under the caller's mask.
\<close>

lemma SendDebug_terminated:
  assumes "0 \<notin> set pre"
  shows "\<exists>s'. SendDebug (pre @ 0 # rest) s = Some s'
           \<and> PRIMASK s' = PRIMASK s \<and> pin s' = True
           \<and> sent s s' = [Drive True] @ concat (map (spec_frame_events CPU_CYCLES) pre) @ [Drive True]
           \<and> sent_masks s s' = replicate (20 * length pre + 2) True"
proof -
  let ?es = "[Drive True] @ concat (map (spec_frame_events CPU_CYCLES) pre) @ [Drive True]"
  let ?s' = "s\<lparr>pin := True, trace := trace s @ map (Pair True) ?es\<rparr>"
  have "SendDebug (pre @ 0 # rest) s = Some ?s'"
    by (rule SendDebug_terminated_state [OF assms])
  moreover have "PRIMASK ?s' = PRIMASK s" and "pin ?s' = True" by simp_all
  moreover have "sent s ?s' = ?es" by (rule sent_added)
  moreover have "sent_masks s ?s' = replicate (length ?es) True" by (rule sent_masks_added)
  moreover have "length ?es = 20 * length pre + 2" by simp
  ultimately show ?thesis by metis
qed

lemma SendDebug_p0_terminated:
  assumes "0 \<notin> set pre"
  shows "\<exists>s'. SendDebug_p0 (pre @ 0 # rest) s = Some s'
           \<and> PRIMASK s' = PRIMASK s \<and> pin s' = True
           \<and> sent s s' = [Drive True] @ concat (map (spec_frame_events CPU_CYCLES_p0) pre) @ [Drive True]
           \<and> sent_masks s s' = replicate (20 * length pre + 2) (PRIMASK s)"
proof -
  let ?es = "[Drive True] @ concat (map (spec_frame_events CPU_CYCLES_p0) pre) @ [Drive True]"
  let ?s' = "s\<lparr>pin := True, trace := trace s @ map (Pair (PRIMASK s)) ?es\<rparr>"
  have "SendDebug_p0 (pre @ 0 # rest) s = Some ?s'"
    by (rule SendDebug_p0_terminated_state [OF assms])
  moreover have "PRIMASK ?s' = PRIMASK s" and "pin ?s' = True" by simp_all
  moreover have "sent s ?s' = ?es" by (rule sent_added)
  moreover have "sent_masks s ?s' = replicate (length ?es) (PRIMASK s)"
    by (rule sent_masks_added)
  moreover have "length ?es = 20 * length pre + 2" by simp
  ultimately show ?thesis by metis
qed

lemma SendDebug_unterminated: "0 \<notin> set str \<Longrightarrow> SendDebug str s = None"
  by (simp add: SendDebug_def SendDebug_loop_unterminated)

lemma SendDebug_p0_unterminated: "0 \<notin> set str \<Longrightarrow> SendDebug_p0 str s = None"
  by (simp add: SendDebug_p0_def SendDebug_loop_unterminated)

lemma slot_levels_frame:
  "slot_levels p (spec_frame_events cyc b @ es) = spec_frame_levels b @ slot_levels True es"
  by (simp add: spec_frame_events_def spec_frame_levels_def upt_0_8)

lemma slot_levels_frames':
  "slot_levels p (concat (map (spec_frame_events cyc) str) @ [Drive True])
   = concat (map spec_frame_levels str)"
  by (induction str arbitrary: p) (simp_all add: slot_levels_frame)

lemma slot_levels_frames:
  "slot_levels p ([Drive True] @ concat (map (spec_frame_events cyc) str) @ [Drive True])
   = concat (map spec_frame_levels str)"
  by (simp add: slot_levels_frames')

lemma waits_frame: "waits (spec_frame_events cyc b @ es) = replicate 10 cyc @ waits es"
  by (simp add: spec_frame_events_def upt_0_8 numeral_eq_Suc)

lemma waits_frames':
  "waits (concat (map (spec_frame_events cyc) str) @ [Drive True]) = replicate (10 * length str) cyc"
  by (induction str) (simp_all add: waits_frame replicate_add [symmetric] del: replicate_add)

lemma waits_frames:
  "waits ([Drive True] @ concat (map (spec_frame_events cyc) str) @ [Drive True])
   = replicate (10 * length str) cyc"
  by (simp add: waits_frames')

lemma level_before_start_frames:
  "level_before_start p ([Drive True] @ concat (map (spec_frame_events cyc) str) @ [Drive True])
   = (if str = [] then None else Some True)"
  by (cases str) (simp_all add: spec_frame_events_def)

lemma rx_byte_bits: "rx_byte (map (\<lambda>i. drop_bit i b AND 1 = 1) [0..<8]) = b"
proof -
  have "rx_byte (map (bit b) [0..<8]) = take_bit 8 b"
    unfolding rx_byte_def by (rule horner_sum_bit_eq_take_bit)
  moreover have "take_bit 8 b = b"
    by (rule take_bit_word_eq_self) simp
  ultimately show ?thesis by (simp add: byte_bit_test)
qed

lemma uart_rx_frame: "uart_rx (spec_frame_levels b @ ls) = map_option (Cons b) (uart_rx ls)"
proof -
  let ?bits = "map (\<lambda>i. drop_bit i b AND 1 = 1) [0..<8]"
  have len: "length ?bits = 8" by simp
  have "uart_rx (False # ?bits @ True # ls) = map_option (Cons (rx_byte ?bits)) (uart_rx ls)"
    using len by (simp add: nth_append del: length_map)
  then show ?thesis by (simp add: spec_frame_levels_def rx_byte_bits)
qed

lemma uart_rx_frames: "uart_rx (concat (map spec_frame_levels str)) = Some str"
  by (induction str) (simp_all add: uart_rx_frame)

lemma first_NUL_split:
  assumes "0 \<in> set (bs :: u8 list)"
  shows "\<exists>rest. bs = takeWhile (\<lambda>b. b \<noteq> 0) bs @ 0 # rest"
proof -
  from assms have "dropWhile (\<lambda>b. b \<noteq> 0) bs \<noteq> []" by auto
  then obtain rest where rest: "dropWhile (\<lambda>b. b \<noteq> 0) bs = 0 # rest"
    using hd_dropWhile [of "\<lambda>b. b \<noteq> 0" bs] by (cases "dropWhile (\<lambda>b. b \<noteq> 0) bs") auto
  have "bs = takeWhile (\<lambda>b. b \<noteq> 0) bs @ 0 # rest"
    using takeWhile_dropWhile_id [of "\<lambda>b. b \<noteq> 0" bs] rest by simp
  then show ?thesis ..
qed

lemma takeWhile_no_NUL: "0 \<notin> set (takeWhile (\<lambda>b. b \<noteq> 0) (bs :: u8 list))"
  by (auto dest: set_takeWhileD)

lemma SendDebug_returns_high:
  assumes "0 \<in> set str"
  shows "\<exists>s'. SendDebug str s = Some s' \<and> pin s'"
proof -
  obtain rest where split: "str = takeWhile (\<lambda>b. b \<noteq> 0) str @ 0 # rest"
    using first_NUL_split [OF assms] by blast
  obtain s' where "SendDebug (takeWhile (\<lambda>b. b \<noteq> 0) str @ 0 # rest) s = Some s'" "pin s' = True"
    using SendDebug_terminated [OF takeWhile_no_NUL, of str rest s] by blast
  with split show ?thesis by simp
qed

lemma SendDebug_p0_returns_high:
  assumes "0 \<in> set str"
  shows "\<exists>s'. SendDebug_p0 str s = Some s' \<and> pin s'"
proof -
  obtain rest where split: "str = takeWhile (\<lambda>b. b \<noteq> 0) str @ 0 # rest"
    using first_NUL_split [OF assms] by blast
  obtain s' where "SendDebug_p0 (takeWhile (\<lambda>b. b \<noteq> 0) str @ 0 # rest) s = Some s'"
      "pin s' = True"
    using SendDebug_p0_terminated [OF takeWhile_no_NUL, of str rest s] by blast
  with split show ?thesis by simp
qed

text \<open>
  In a run of calls of a send function that returns with the pin high, every state
  outside a call, but for the one before the first call, has the pin high.
\<close>

lemma idle_states_high:
  assumes send: "\<And>str s. 0 \<in> set str \<Longrightarrow> \<exists>s'. send str s = Some s' \<and> pin s'"
    and "\<forall>str \<in> set strs. 0 \<in> set str"
  shows "\<exists>ss. idle_states send strs s = Some (s # ss)
           \<and> length ss = length strs \<and> list_all pin ss"
  using assms(2)
proof (induction strs arbitrary: s)
  case Nil
  show ?case by simp
next
  case (Cons str strs)
  then have "0 \<in> set str" and rest: "\<forall>x \<in> set strs. 0 \<in> set x" by simp_all
  then obtain s' where s': "send str s = Some s'" "pin s'" using send by blast
  obtain ss where ss: "idle_states send strs s' = Some (s' # ss)"
      "length ss = length strs" "list_all pin ss"
    using Cons.IH [OF rest, of s'] by blast
  have "idle_states send (str # strs) s = Some (s # s' # ss)"
    by (simp add: s'(1) ss(1))
  moreover have "length (s' # ss) = length (str # strs)" by (simp add: ss(2))
  moreover have "list_all pin (s' # ss)" by (simp add: s'(2) ss(3))
  ultimately show ?case by blast
qed

subsection \<open>The buffer that snprintf leaves\<close>

lemma takeWhile_take: "takeWhile P (take n xs) = take n (takeWhile P xs)"
proof (induction xs arbitrary: n)
  case Nil
  show ?case by simp
next
  case (Cons x xs)
  show ?case by (cases n) (simp_all add: Cons.IH)
qed

lemma takeWhile_stop: "\<not> P y \<Longrightarrow> takeWhile P (xs @ y # ys) = takeWhile P xs"
  by (induction xs) simp_all

lemma snprintf_text:
  "takeWhile (\<lambda>b. b \<noteq> 0) (snprintf buffer 128 rendered)
   = take 127 (takeWhile (\<lambda>b. b \<noteq> 0) rendered)"
  by (simp add: snprintf_def takeWhile_stop takeWhile_take)

lemma snprintf_NUL: "0 \<in> set (snprintf buffer 128 rendered)"
  by (simp add: snprintf_def)

lemma snprintf_length: "length buffer = 128 \<Longrightarrow> length (snprintf buffer 128 rendered) = 128"
  by (simp add: snprintf_def)

section \<open>Properties of CpuDelay\<close>

lemma wrapped_target_below_start:
  assumes "2 ^ 32 \<le> unat (x::u32) + unat y"
  shows "\<not> x < x + y"
proof -
  have y: "unat y < 2 ^ 32" using unsigned_less [of y] by simp
  have x: "unat x < 2 ^ 32" using unsigned_less [of x] by simp
  have "unat (x + y) = (unat x + unat y) mod 2 ^ 32"
    by (simp add: unat_word_ariths)
  also have "\<dots> = (unat x + unat y - 2 ^ 32) mod 2 ^ 32"
    using assms by (simp add: le_mod_geq)
  also have "\<dots> = unat x + unat y - 2 ^ 32"
    using x y by simp
  finally have "unat (x + y) < unat x" using assms y by simp
  then show ?thesis by (simp add: word_less_nat_alt)
qed

text \<open>
  Whenever \<^verbatim>\<open>start_cycle + cycles\<close> wraps, the target lies below the counter, the
  first test \<^verbatim>\<open>DWT->CYCCNT < target_cycle\<close> fails and \<^verbatim>\<open>CpuDelay\<close> of
  \<^verbatim>\<open>src/fw/otavio.h\<close> returns with no cycle waited, whatever a pass of the loop costs.
\<close>

lemma CpuDelay_returns_at_once_on_wrap:
  assumes "2 ^ 32 \<le> unat (CYCCNT t) + unat cycles"
  shows "CpuDelay pass cycles t = Some t"
  unfolding CpuDelay_def Let_def
  by (subst CpuDelay_wait.simps) (simp add: wrapped_target_below_start [OF assms])

lemma CYCCNT_ahead:
  assumes "unat (CYCCNT t) + n < 2 ^ 32" and "j \<le> n"
  shows "unat (CYCCNT (t + j)) = unat (CYCCNT t) + j"
proof -
  have "unat (CYCCNT (t + j)) = (t + j) mod 2 ^ 32"
    by (simp add: CYCCNT_def unat_of_nat del: of_nat_add)
  also have "\<dots> = (t mod 2 ^ 32 + j) mod 2 ^ 32"
    by (simp add: mod_add_left_eq)
  also have "\<dots> = t mod 2 ^ 32 + j"
    using assms by (simp add: CYCCNT_def unat_of_nat)
  finally show ?thesis by (simp add: CYCCNT_def unat_of_nat)
qed

lemma CpuDelay_wait_no_wrap:
  assumes "unat (CYCCNT t) + unat cycles < 2 ^ 32" and "j \<le> unat cycles"
  shows "CpuDelay_wait 1 (CYCCNT t + cycles) (t + j) = Some (t + unat cycles)"
  using assms(2)
proof (induction "unat cycles - j" arbitrary: j)
  case 0
  then have j: "j = unat cycles" by simp
  have tgt: "unat (CYCCNT t + cycles) = unat (CYCCNT t) + unat cycles"
    using assms(1) by (simp add: unat_add_lem [THEN iffD1])
  have "unat (CYCCNT (t + j)) = unat (CYCCNT t) + j"
    using CYCCNT_ahead [OF assms(1)] j by simp
  with tgt j have "\<not> CYCCNT (t + j) < CYCCNT t + cycles"
    by (simp add: word_less_nat_alt)
  then show ?case
    using j by (subst CpuDelay_wait.simps) simp
next
  case (Suc k)
  then have lt: "j < unat cycles" and k: "k = unat cycles - (j + 1)"
    and le: "j + 1 \<le> unat cycles"
    by simp_all
  have tgt: "unat (CYCCNT t + cycles) = unat (CYCCNT t) + unat cycles"
    using assms(1) by (simp add: unat_add_lem [THEN iffD1])
  have "unat (CYCCNT (t + j)) = unat (CYCCNT t) + j"
    using CYCCNT_ahead [OF assms(1)] lt by simp
  with tgt lt have "CYCCNT (t + j) < CYCCNT t + cycles"
    by (simp add: word_less_nat_alt)
  then have "CpuDelay_wait 1 (CYCCNT t + cycles) (t + j)
             = CpuDelay_wait 1 (CYCCNT t + cycles) (t + (j + 1))"
    by (subst CpuDelay_wait.simps) (simp add: add.assoc)
  also have "\<dots> = Some (t + unat cycles)"
    by (rule Suc.hyps(1) [OF k le])
  finally show ?case .
qed

text \<open>
  Away from the wrap, with the counter read every cycle, \<^verbatim>\<open>CpuDelay\<close> of
  \<^verbatim>\<open>src/fw/otavio.h\<close> returns after exactly \<open>cycles\<close> cycles.
\<close>

lemma CpuDelay_no_wrap:
  assumes "unat (CYCCNT t) + unat cycles < 2 ^ 32"
  shows "CpuDelay 1 cycles t = Some (t + unat cycles)"
  using CpuDelay_wait_no_wrap [OF assms, of 0] by (simp add: CpuDelay_def)

text \<open>
  A transmission of \<^verbatim>\<open>src/fw/otavio.h\<close> during which the counter does not wrap
  lasts the sum of the delays it asks for.
\<close>

lemma elapse_no_wrap:
  "unat (CYCCNT t) + sum_list (map unat (waits es)) < 2 ^ 32 \<Longrightarrow>
   elapse 1 es t = Some (t + sum_list (map unat (waits es)))"
proof (induction es arbitrary: t rule: waits.induct)
  case 1
  show ?case by simp
next
  case (2 v es)
  then show ?case by simp
next
  case (3 c es)
  let ?rest = "sum_list (map unat (waits es))"
  from "3.prems" have bound: "unat (CYCCNT t) + (unat c + ?rest) < 2 ^ 32" by simp
  then have "unat (CYCCNT t) + unat c < 2 ^ 32" by simp
  then have d: "CpuDelay 1 c t = Some (t + unat c)" by (rule CpuDelay_no_wrap)
  have "unat (CYCCNT (t + unat c)) = unat (CYCCNT t) + unat c"
    by (rule CYCCNT_ahead [OF bound]) simp
  with bound have "unat (CYCCNT (t + unat c)) + ?rest < 2 ^ 32" by simp
  then have "elapse 1 es (t + unat c) = Some (t + unat c + ?rest)" by (rule "3.IH")
  with d show ?case by (simp add: add.assoc)
qed

text \<open>
  Begun with the counter at 0xFFFFFFF0, every one of the ten delays of a frame returns
  at once: the frame of 0x41 is over at the time it began.
\<close>

lemma elapse_frame_at_wrap:
  "elapse 1 (spec_frame_events CPU_CYCLES 0x41) 4294967280 = Some 4294967280"
proof -
  have "(2::nat) ^ 32 \<le> unat (CYCCNT 4294967280) + unat CPU_CYCLES"
    by (simp add: CYCCNT_def CPU_CYCLES_def)
  then have "CpuDelay 1 CPU_CYCLES 4294967280 = Some 4294967280"
    by (rule CpuDelay_returns_at_once_on_wrap)
  then show ?thesis by (simp add: spec_frame_events_def upt_0_8)
qed

lemma CpuDelay_p0_loop_count:
  "i \<le> cycles \<Longrightarrow> CpuDelay_p0_loop cycles i n = n + (unat cycles - unat i)"
proof (induction cycles i n rule: CpuDelay_p0_loop.induct)
  case (1 cycles i nops)
  show ?case
  proof (cases "i < cycles")
    case True
    have u: "unat (i + 1) = unat i + 1"
      using True by (metis (no_types, lifting) add.commute add_0 inc_i inc_le
        unat_plus_simple unsigned_0 unsigned_1 word_gt_0)
    have le: "i + 1 \<le> cycles" using True by (simp add: inc_le)
    have "unat i < unat cycles" using True by (simp add: word_less_nat_alt)
    then show ?thesis
      using "1.IH" [OF True le] True u by (subst CpuDelay_p0_loop.simps) simp
  next
    case False
    with "1.prems" have "i = cycles" by simp
    then show ?thesis by (subst CpuDelay_p0_loop.simps) simp
  qed
qed

text \<open>The busy loop of \<^verbatim>\<open>src/unnamed/part_000\<close> executes exactly \<open>cycles\<close> NOPs.\<close>

lemma CpuDelay_p0_count: "CpuDelay_p0 cycles = unat cycles"
  by (simp add: CpuDelay_p0_def CpuDelay_p0_loop_count)

text \<open>
  For every string of N bytes before its NUL, SendDebug calls CpuDelay exactly 10 * N
  times, once per bit slot and each time for \<open>CPU_CYCLES\<close>, before it returns with
  the pin at idle. In \<^verbatim>\<open>src/unnamed/part_000\<close> the busy loops execute
  10 * N * 145 NOPs in all.
\<close>

lemma SendDebug_delay_count:
  assumes "0 \<notin> set str"
  shows "(\<exists>s'. SendDebug (str @ 0 # rest) s = Some s'
            \<and> waits (sent s s') = replicate (10 * length str) CPU_CYCLES
            \<and> sum_list (map unat (waits (sent s s'))) = 10 * length str * unat CPU_CYCLES
            \<and> pin s' = True)
       \<and> (\<exists>s'. SendDebug_p0 (str @ 0 # rest) s = Some s'
            \<and> waits (sent s s') = replicate (10 * length str) CPU_CYCLES_p0
            \<and> sum_list (map unat (waits (sent s s'))) = 10 * length str * unat CPU_CYCLES_p0
            \<and> sum_list (map CpuDelay_p0 (waits (sent s s'))) = 10 * length str * 145
            \<and> pin s' = True)"
proof -
  have total: "sum_list (map unat (replicate n c)) = n * unat c" for n and c :: u32
    by (simp add: sum_list_replicate)
  have nops: "sum_list (map CpuDelay_p0 (replicate n CPU_CYCLES_p0)) = n * 145" for n
    by (simp add: sum_list_replicate CpuDelay_p0_count CPU_CYCLES_p0_def)
  obtain s1 where s1: "SendDebug (str @ 0 # rest) s = Some s1" "pin s1 = True"
      "sent s s1 = [Drive True] @ concat (map (spec_frame_events CPU_CYCLES) str) @ [Drive True]"
    using SendDebug_terminated [OF assms, of rest s] by blast
  obtain s2 where s2: "SendDebug_p0 (str @ 0 # rest) s = Some s2" "pin s2 = True"
      "sent s s2 = [Drive True] @ concat (map (spec_frame_events CPU_CYCLES_p0) str) @ [Drive True]"
    using SendDebug_p0_terminated [OF assms, of rest s] by blast
  have w1: "waits (sent s s1) = replicate (10 * length str) CPU_CYCLES"
    unfolding s1(3) by (rule waits_frames)
  have w2: "waits (sent s s2) = replicate (10 * length str) CPU_CYCLES_p0"
    unfolding s2(3) by (rule waits_frames)
  have t1: "sum_list (map unat (waits (sent s s1))) = 10 * length str * unat CPU_CYCLES"
    unfolding w1 by (rule total)
  have t2: "sum_list (map unat (waits (sent s s2))) = 10 * length str * unat CPU_CYCLES_p0"
    unfolding w2 by (rule total)
  have n2: "sum_list (map CpuDelay_p0 (waits (sent s s2))) = 10 * length str * 145"
    unfolding w2 by (rule nops)
  from s1 s2 w1 w2 t1 t2 n2 show ?thesis by blast
qed

text \<open>
  In \<^verbatim>\<open>src/fw/otavio.h\<close>, a call that is entered at time \<open>t\<close> and during which the
  counter does not wrap lasts 10 * N * \<open>CPU_CYCLES\<close> cycles.
\<close>

lemma SendDebug_duration_no_wrap:
  assumes "0 \<notin> set str"
    and "unat (CYCCNT t) + 10 * length str * unat CPU_CYCLES < 2 ^ 32"
  shows "\<exists>s'. SendDebug (str @ 0 # rest) s = Some s'
           \<and> elapse 1 (sent s s') t = Some (t + 10 * length str * unat CPU_CYCLES)"
proof -
  obtain s1 where s1: "SendDebug (str @ 0 # rest) s = Some s1"
      "sum_list (map unat (waits (sent s s1))) = 10 * length str * unat CPU_CYCLES"
    using SendDebug_delay_count [OF assms(1), of rest s] by blast
  have "elapse 1 (sent s s1) t = Some (t + sum_list (map unat (waits (sent s s1))))"
    using assms(2) by (intro elapse_no_wrap) (simp add: s1(2))
  with s1 show ?thesis by simp
qed

section \<open>The claims\<close>

text \<open>
  C1. For every non-empty, NUL-terminated input string, SendDebug emits each byte as one
  10-slot serial frame, in order: the pin is driven low for the start bit, then for bit
  index i = 0..7 driven to \<open>(byte >> i) & 1\<close>, then driven high for the stop bit. For
  the single byte 0x41 the levels of the ten slots are 0,1,0,0,0,0,0,1,0,1. This holds
  for both versions of the header, and for the empty string too (no frame at all).
\<close>

theorem SendDebug_emits_frames:
  assumes "0 \<notin> set str"
  shows "(\<exists>s'. SendDebug (str @ 0 # rest) s = Some s'
            \<and> sent s s' = [Drive True] @ concat (map (spec_frame_events CPU_CYCLES) str) @ [Drive True]
            \<and> slot_levels (pin s) (sent s s') = concat (map spec_frame_levels str))
       \<and> (\<exists>s'. SendDebug_p0 (str @ 0 # rest) s = Some s'
            \<and> sent s s' = [Drive True] @ concat (map (spec_frame_events CPU_CYCLES_p0) str) @ [Drive True]
            \<and> slot_levels (pin s) (sent s s') = concat (map spec_frame_levels str))
       \<and> (\<exists>s'. SendDebug (0x41 # 0 # rest) s = Some s'
            \<and> map of_bool (slot_levels (pin s) (sent s s')) = [0, 1, 0, 0, 0, 0, 0, 1, 0, 1 :: nat])
       \<and> (\<exists>s'. SendDebug_p0 (0x41 # 0 # rest) s = Some s'
            \<and> map of_bool (slot_levels (pin s) (sent s s')) = [0, 1, 0, 0, 0, 0, 0, 1, 0, 1 :: nat])"
proof -
  have A: "map of_bool (concat (map spec_frame_levels [0x41])) = [0, 1, 0, 0, 0, 0, 0, 1, 0, 1 :: nat]"
    by (simp add: spec_frame_levels_def upt_0_8 byte_bit_test)
  have fw: "\<exists>s'. SendDebug (str @ 0 # rest) s = Some s'
            \<and> sent s s' = [Drive True] @ concat (map (spec_frame_events CPU_CYCLES) str) @ [Drive True]
            \<and> slot_levels (pin s) (sent s s') = concat (map spec_frame_levels str)"
    using SendDebug_terminated [OF assms, of rest s]
    by (metis slot_levels_frames)
  have p0: "\<exists>s'. SendDebug_p0 (str @ 0 # rest) s = Some s'
            \<and> sent s s' = [Drive True] @ concat (map (spec_frame_events CPU_CYCLES_p0) str) @ [Drive True]
            \<and> slot_levels (pin s) (sent s s') = concat (map spec_frame_levels str)"
    using SendDebug_p0_terminated [OF assms, of rest s]
    by (metis slot_levels_frames)
  have nz: "0 \<notin> set [0x41 :: u8]" by simp
  have fwA: "\<exists>s'. SendDebug (0x41 # 0 # rest) s = Some s'
            \<and> map of_bool (slot_levels (pin s) (sent s s')) = [0, 1, 0, 0, 0, 0, 0, 1, 0, 1 :: nat]"
    using SendDebug_terminated [OF nz, of rest s] A
    by (metis slot_levels_frames append_Cons append_Nil)
  have p0A: "\<exists>s'. SendDebug_p0 (0x41 # 0 # rest) s = Some s'
            \<and> map of_bool (slot_levels (pin s) (sent s s')) = [0, 1, 0, 0, 0, 0, 0, 1, 0, 1 :: nat]"
    using SendDebug_p0_terminated [OF nz, of rest s] A
    by (metis slot_levels_frames append_Cons append_Nil)
  from fw p0 fwA p0A show ?thesis by blast
qed

theorem SendDebug_emits_frames_witness:
  "0 \<notin> set [0x48, 0x69 :: u8]
   \<and> (\<exists>s'. SendDebug [0x48, 0x69, 0] \<lparr>PRIMASK = False, pin = False, trace = []\<rparr> = Some s'
         \<and> slot_levels False (sent \<lparr>PRIMASK = False, pin = False, trace = []\<rparr> s')
             = spec_frame_levels 0x48 @ spec_frame_levels 0x69)"
  using SendDebug_emits_frames [of "[0x48, 0x69]" "[]" "\<lparr>PRIMASK = False, pin = False, trace = []\<rparr>"]
  by simp blast

text \<open>
  C2 asks that CpuDelay, in its free-running-counter form, returns only after at least
  \<open>cycles\<close> counter ticks have elapsed since entry, also when \<open>start + cycles\<close> wraps
  past the 32-bit boundary. \<^verbatim>\<open>src/fw/otavio.h\<close> tests \<^verbatim>\<open>DWT->CYCCNT < target_cycle\<close>
  and does not: entered with the counter at 0xFFFFFFF0 for \<open>CPU_CYCLES\<close> = 725 cycles,
  the target wraps to 709, the first test fails, and the call returns at the time it
  was entered, 725 cycles too early.
\<close>

theorem CpuDelay_returns_early_at_wrap:
  "CYCCNT 4294967280 = 0xFFFFFFF0
   \<and> CYCCNT 4294967280 + CPU_CYCLES = 709
   \<and> CpuDelay 1 CPU_CYCLES 4294967280 = Some 4294967280
   \<and> 4294967280 < 4294967280 + unat CPU_CYCLES"
  unfolding CpuDelay_def Let_def
  by (subst CpuDelay_wait.simps) (simp add: CYCCNT_def CPU_CYCLES_def)


text \<open>
  C4, as amended. In \<^verbatim>\<open>src/fw/otavio.h\<close>, every pin write and every bit-time delay
  of a SendDebug call, from the first write of the idle level to the last, happens with
  all maskable interrupts disabled, whatever the mask was at entry. In
  \<^verbatim>\<open>src/unnamed/part_000\<close> SendDebug does not touch the interrupt mask: every pin
  write and delay happens under the mask the caller had set.
\<close>

theorem SendDebug_masks_interrupts:
  assumes "0 \<notin> set str"
  shows "(\<exists>s'. SendDebug (str @ 0 # rest) s = Some s'
            \<and> length (sent s s') = 20 * length str + 2
            \<and> sent_masks s s' = replicate (20 * length str + 2) True)
       \<and> (\<exists>s'. SendDebug_p0 (str @ 0 # rest) s = Some s'
            \<and> length (sent s s') = 20 * length str + 2
            \<and> sent_masks s s' = replicate (20 * length str + 2) (PRIMASK s))"
proof -
  obtain s1 where s1: "SendDebug (str @ 0 # rest) s = Some s1"
      "sent s s1 = [Drive True] @ concat (map (spec_frame_events CPU_CYCLES) str) @ [Drive True]"
      "sent_masks s s1 = replicate (20 * length str + 2) True"
    using SendDebug_terminated [OF assms, of rest s] by blast
  obtain s2 where s2: "SendDebug_p0 (str @ 0 # rest) s = Some s2"
      "sent s s2 = [Drive True] @ concat (map (spec_frame_events CPU_CYCLES_p0) str) @ [Drive True]"
      "sent_masks s s2 = replicate (20 * length str + 2) (PRIMASK s)"
    using SendDebug_p0_terminated [OF assms, of rest s] by blast
  have l1: "length (sent s s1) = 20 * length str + 2" unfolding s1(2) by simp
  have l2: "length (sent s s2) = 20 * length str + 2" unfolding s2(2) by simp
  from s1 s2 l1 l2 show ?thesis by blast
qed

theorem SendDebug_masks_interrupts_witness:
  "0 \<notin> set [0x41 :: u8]
   \<and> (\<exists>s'. SendDebug [0x41, 0] \<lparr>PRIMASK = False, pin = True, trace = []\<rparr> = Some s'
         \<and> sent_masks \<lparr>PRIMASK = False, pin = True, trace = []\<rparr> s' = replicate 22 True)"
  using SendDebug_masks_interrupts [of "[0x41]" "[]" "\<lparr>PRIMASK = False, pin = True, trace = []\<rparr>"]
  by simp blast

text \<open>
  C4 as stated fails on \<^verbatim>\<open>src/unnamed/part_000\<close>: called with interrupts enabled, its
  SendDebug sends the byte 0x41 with interrupts enabled at every one of the 22 pin writes
  and delays.
\<close>

theorem SendDebug_p0_interrupts_enabled_counterexample:
  "map_option (sent_masks \<lparr>PRIMASK = False, pin = True, trace = []\<rparr>)
     (SendDebug_p0 [0x41, 0] \<lparr>PRIMASK = False, pin = True, trace = []\<rparr>)
   = Some (replicate 22 False)"
proof -
  have nz: "0 \<notin> set [0x41 :: u8]" by simp
  show ?thesis
    using SendDebug_p0_terminated [OF nz, of "[]" "\<lparr>PRIMASK = False, pin = True, trace = []\<rparr>"]
    by auto
qed

text \<open>
  C5. For every input string and every interrupt-enabled state at entry, the
  interrupt-enabled state after SendDebug returns is the state before the call: enabled
  stays enabled, disabled stays disabled. \<^verbatim>\<open>src/fw/otavio.h\<close> restores the saved
  state; \<^verbatim>\<open>src/unnamed/part_000\<close> never changes it.
\<close>

theorem SendDebug_restores_interrupt_state:
  assumes "0 \<notin> set str"
  shows "(\<exists>s'. SendDebug (str @ 0 # rest) s = Some s' \<and> PRIMASK s' = PRIMASK s)
       \<and> (\<exists>s'. SendDebug_p0 (str @ 0 # rest) s = Some s' \<and> PRIMASK s' = PRIMASK s)"
  using SendDebug_terminated [OF assms, of rest s] SendDebug_p0_terminated [OF assms, of rest s]
  by blast

theorem SendDebug_restores_interrupt_state_witness:
  "0 \<notin> set [0x48, 0x69 :: u8]
   \<and> (\<exists>s'. SendDebug [0x48, 0x69, 0] \<lparr>PRIMASK = False, pin = False, trace = []\<rparr> = Some s'
         \<and> PRIMASK s' = False)
   \<and> (\<exists>s'. SendDebug [0x48, 0x69, 0] \<lparr>PRIMASK = True, pin = False, trace = []\<rparr> = Some s'
         \<and> PRIMASK s' = True)"
  using
    SendDebug_restores_interrupt_state
      [of "[0x48, 0x69]" "[]" "\<lparr>PRIMASK = False, pin = False, trace = []\<rparr>"]
    SendDebug_restores_interrupt_state
      [of "[0x48, 0x69]" "[]" "\<lparr>PRIMASK = True, pin = False, trace = []\<rparr>"]
  by simp

text \<open>
  C6, as amended. Calling SendDebug with the empty string emits zero frames: the pin is
  never driven low and no bit-time delay occurs. The interrupt-enabled state is left as
  it was. The pin is driven to the idle level twice and is high on return: unchanged
  when it was high at entry, changed to high when it was low. Both versions of the
  header.
\<close>

theorem SendDebug_empty_string:
  "(\<exists>s'. SendDebug (0 # rest) s = Some s'
       \<and> sent s s' = [Drive True, Drive True]
       \<and> waits (sent s s') = []
       \<and> PRIMASK s' = PRIMASK s
       \<and> pin s' = True \<and> (pin s \<longrightarrow> pin s' = pin s))
   \<and> (\<exists>s'. SendDebug_p0 (0 # rest) s = Some s'
       \<and> sent s s' = [Drive True, Drive True]
       \<and> waits (sent s s') = []
       \<and> PRIMASK s' = PRIMASK s
       \<and> pin s' = True \<and> (pin s \<longrightarrow> pin s' = pin s))"
proof -
  have nz: "0 \<notin> set ([] :: u8 list)" by simp
  obtain s1 where s1: "SendDebug (0 # rest) s = Some s1" "PRIMASK s1 = PRIMASK s"
      "pin s1 = True" "sent s s1 = [Drive True, Drive True]"
    using SendDebug_terminated [OF nz, of rest s] by auto
  obtain s2 where s2: "SendDebug_p0 (0 # rest) s = Some s2" "PRIMASK s2 = PRIMASK s"
      "pin s2 = True" "sent s s2 = [Drive True, Drive True]"
    using SendDebug_p0_terminated [OF nz, of rest s] by auto
  have w1: "waits (sent s s1) = []" unfolding s1(4) by simp
  have w2: "waits (sent s s2) = []" unfolding s2(4) by simp
  from s1 s2 w1 w2 show ?thesis by auto
qed

theorem SendDebug_empty_string_witness:
  "pin \<lparr>PRIMASK = False, pin = True, trace = []\<rparr>
   \<and> (\<exists>s'. SendDebug [0] \<lparr>PRIMASK = False, pin = True, trace = []\<rparr> = Some s'
         \<and> sent \<lparr>PRIMASK = False, pin = True, trace = []\<rparr> s' = [Drive True, Drive True]
         \<and> pin s' = pin \<lparr>PRIMASK = False, pin = True, trace = []\<rparr>)"
  using SendDebug_empty_string [of "[]" "\<lparr>PRIMASK = False, pin = True, trace = []\<rparr>"]
  by simp blast

text \<open>
  C6 as stated fails when the pin is low at entry: the call with the empty string
  leaves it high.
\<close>

theorem SendDebug_empty_string_changes_pin_counterexample:
  "pin \<lparr>PRIMASK = False, pin = False, trace = []\<rparr> = False
   \<and> map_option pin (SendDebug [0] \<lparr>PRIMASK = False, pin = False, trace = []\<rparr>) = Some True
   \<and> map_option pin (SendDebug_p0 [0] \<lparr>PRIMASK = False, pin = False, trace = []\<rparr>) = Some True"
proof -
  have nz: "0 \<notin> set ([] :: u8 list)" by simp
  show ?thesis
    using SendDebug_terminated [OF nz, of "[]" "\<lparr>PRIMASK = False, pin = False, trace = []\<rparr>"]
      SendDebug_p0_terminated [OF nz, of "[]" "\<lparr>PRIMASK = False, pin = False, trace = []\<rparr>"]
    by auto
qed

text \<open>
  C7. For every template and argument list, with \<open>rendered\<close> the text they expand to
  under the C library's format substitution: SendDebugf stores it in the 128-byte
  buffer, cut to at most 127 bytes and followed by a NUL, and calls SendDebug on the
  buffer. The call always returns, and what goes out on the pin is the frames of the
  first 127 bytes of the rendered text (as a C string), whatever the buffer held before
  and however long the rendered text is. The buffer is never written past its 128
  bytes. Both versions of the header.
\<close>

theorem SendDebugf_truncates:
  "(\<exists>s'. SendDebugf buffer rendered s = Some s'
       \<and> sent s s' = [Drive True]
            @ concat (map (spec_frame_events CPU_CYCLES) (take 127 (takeWhile (\<lambda>b. b \<noteq> 0) rendered)))
            @ [Drive True])
   \<and> (\<exists>s'. SendDebugf_p0 buffer rendered s = Some s'
       \<and> sent s s' = [Drive True]
            @ concat (map (spec_frame_events CPU_CYCLES_p0) (take 127 (takeWhile (\<lambda>b. b \<noteq> 0) rendered)))
            @ [Drive True])
   \<and> (length buffer = 128 \<longrightarrow> length (snprintf buffer 128 rendered) = 128)"
proof -
  let ?buf = "snprintf buffer 128 rendered"
  let ?text = "take 127 (takeWhile (\<lambda>b. b \<noteq> 0) rendered)"
  have cut: "takeWhile (\<lambda>b. b \<noteq> 0) ?buf = ?text" by (rule snprintf_text)
  have nz: "0 \<notin> set ?text" using takeWhile_no_NUL [of ?buf] unfolding cut .
  obtain rest where split: "?buf = ?text @ 0 # rest"
    using first_NUL_split [OF snprintf_NUL, of buffer rendered] unfolding cut by blast
  obtain s1 where s1: "SendDebug (?text @ 0 # rest) s = Some s1"
      "sent s s1 = [Drive True] @ concat (map (spec_frame_events CPU_CYCLES) ?text) @ [Drive True]"
    using SendDebug_terminated [OF nz, of rest s] by blast
  obtain s2 where s2: "SendDebug_p0 (?text @ 0 # rest) s = Some s2"
      "sent s s2 = [Drive True] @ concat (map (spec_frame_events CPU_CYCLES_p0) ?text) @ [Drive True]"
    using SendDebug_p0_terminated [OF nz, of rest s] by blast
  have "SendDebugf buffer rendered s = Some s1" "SendDebugf_p0 buffer rendered s = Some s2"
    using s1(1) s2(1) split by (simp_all add: SendDebugf_def SendDebugf_p0_def)
  with s1(2) s2(2) snprintf_length [of buffer rendered] show ?thesis by blast
qed

theorem SendDebugf_truncates_witness:
  "length (replicate 128 (0xAA :: u8)) = 128
   \<and> (\<exists>s'. SendDebugf (replicate 128 0xAA) (replicate 200 0x41)
              \<lparr>PRIMASK = False, pin = False, trace = []\<rparr> = Some s'
         \<and> sent \<lparr>PRIMASK = False, pin = False, trace = []\<rparr> s'
             = [Drive True] @ concat (replicate 127 (spec_frame_events CPU_CYCLES 0x41)) @ [Drive True])
   \<and> length (snprintf (replicate 128 0xAA) 128 (replicate 200 0x41)) = 128"
  using SendDebugf_truncates [of "replicate 128 0xAA" "replicate 200 0x41"
      "\<lparr>PRIMASK = False, pin = False, trace = []\<rparr>"]
  by (simp add: map_replicate_const)

text \<open>
  C8, as amended. For every input string, the pin is high just before the first start
  bit of the first frame (the call begins by driving it high), the last thing the call
  does to the pin is to drive it high, and the pin is high when SendDebug returns,
  whatever its level was at entry. So in any run of calls the pin is at idle-high
  outside a call from the return of the first call on; its level before the first call
  is not set by SendDebug. Both versions of the header.
\<close>

theorem SendDebug_idle_high:
  assumes "0 \<notin> set str" and "\<forall>x \<in> set strs. 0 \<in> set x"
  shows "(\<exists>s'. SendDebug (str @ 0 # rest) s = Some s'
            \<and> level_before_start (pin s) (sent s s') = (if str = [] then None else Some True)
            \<and> last (sent s s') = Drive True
            \<and> pin s' = True)
       \<and> (\<exists>s'. SendDebug_p0 (str @ 0 # rest) s = Some s'
            \<and> level_before_start (pin s) (sent s s') = (if str = [] then None else Some True)
            \<and> last (sent s s') = Drive True
            \<and> pin s' = True)
       \<and> (\<exists>ss. idle_states SendDebug strs s = Some (s # ss)
            \<and> length ss = length strs \<and> list_all pin ss)
       \<and> (\<exists>ss. idle_states SendDebug_p0 strs s = Some (s # ss)
            \<and> length ss = length strs \<and> list_all pin ss)"
proof -
  obtain s1 where s1: "SendDebug (str @ 0 # rest) s = Some s1" "pin s1 = True"
      "sent s s1 = [Drive True] @ concat (map (spec_frame_events CPU_CYCLES) str) @ [Drive True]"
    using SendDebug_terminated [OF assms(1), of rest s] by blast
  obtain s2 where s2: "SendDebug_p0 (str @ 0 # rest) s = Some s2" "pin s2 = True"
      "sent s s2 = [Drive True] @ concat (map (spec_frame_events CPU_CYCLES_p0) str) @ [Drive True]"
    using SendDebug_p0_terminated [OF assms(1), of rest s] by blast
  have b1: "level_before_start (pin s) (sent s s1) = (if str = [] then None else Some True)"
    unfolding s1(3) by (rule level_before_start_frames)
  have b2: "level_before_start (pin s) (sent s s2) = (if str = [] then None else Some True)"
    unfolding s2(3) by (rule level_before_start_frames)
  have l1: "last (sent s s1) = Drive True" unfolding s1(3) by simp
  have l2: "last (sent s s2) = Drive True" unfolding s2(3) by simp
  have r1: "\<exists>ss. idle_states SendDebug strs s = Some (s # ss)
            \<and> length ss = length strs \<and> list_all pin ss"
    by (rule idle_states_high [OF SendDebug_returns_high assms(2)])
  have r2: "\<exists>ss. idle_states SendDebug_p0 strs s = Some (s # ss)
            \<and> length ss = length strs \<and> list_all pin ss"
    by (rule idle_states_high [OF SendDebug_p0_returns_high assms(2)])
  from s1 s2 b1 b2 l1 l2 r1 r2 show ?thesis by blast
qed

theorem SendDebug_idle_high_witness:
  "0 \<notin> set [0x48, 0x69 :: u8] \<and> 0 \<in> set [0x48, 0 :: u8] \<and> 0 \<in> set [0 :: u8]
   \<and> (\<exists>s'. SendDebug [0x48, 0x69, 0] \<lparr>PRIMASK = False, pin = False, trace = []\<rparr> = Some s'
         \<and> level_before_start False (sent \<lparr>PRIMASK = False, pin = False, trace = []\<rparr> s')
             = Some True
         \<and> pin s' = True)
   \<and> (\<exists>ss. idle_states SendDebug [[0x48, 0], [0]] \<lparr>PRIMASK = False, pin = False, trace = []\<rparr>
             = Some (\<lparr>PRIMASK = False, pin = False, trace = []\<rparr> # ss)
         \<and> list_all pin ss)"
proof -
  have h1: "0 \<notin> set [0x48, 0x69 :: u8]" by simp
  have h2: "\<forall>x \<in> set [[0x48, 0], [0 :: u8]]. 0 \<in> set x" by simp
  show ?thesis
    using SendDebug_idle_high
      [OF h1 h2, of "[]" "\<lparr>PRIMASK = False, pin = False, trace = []\<rparr>"]
    by (simp del: idle_states.simps) blast
qed

text \<open>
  C8 as stated fails for the state before the first call: in a run of one call that
  starts with the pin low, the states outside the call are one with the pin low (before
  the call) and one with the pin high (after it).
\<close>

theorem SendDebug_idle_before_first_call_counterexample:
  "map_option (map pin)
     (idle_states SendDebug [[0x41, 0]] \<lparr>PRIMASK = False, pin = False, trace = []\<rparr>)
   = Some [False, True]
   \<and> map_option (map pin)
     (idle_states SendDebug_p0 [[0x41, 0]] \<lparr>PRIMASK = False, pin = False, trace = []\<rparr>)
   = Some [False, True]"
proof -
  have nz: "0 \<notin> set [0x41 :: u8]" by simp
  show ?thesis
    using SendDebug_terminated [OF nz, of "[]" "\<lparr>PRIMASK = False, pin = False, trace = []\<rparr>"]
      SendDebug_p0_terminated [OF nz, of "[]" "\<lparr>PRIMASK = False, pin = False, trace = []\<rparr>"]
    by auto
qed

text \<open>
  C9. Round trip: for every printable-ASCII string, the receiver (same baud, 8 data bits,
  no parity, 1 stop bit, least-significant bit first) decodes the levels that SendDebug
  puts on the pin, slot by slot, to the original string. Both versions of the header.
\<close>

theorem SendDebug_round_trip:
  assumes "\<forall>c \<in> set str. printable c"
  shows "(\<exists>s'. SendDebug (str @ 0 # rest) s = Some s'
            \<and> uart_rx (slot_levels (pin s) (sent s s')) = Some str)
       \<and> (\<exists>s'. SendDebug_p0 (str @ 0 # rest) s = Some s'
            \<and> uart_rx (slot_levels (pin s) (sent s s')) = Some str)"
proof -
  have "\<not> printable 0" by (simp add: printable_def)
  with assms have nz: "0 \<notin> set str" by blast
  obtain s1 where s1: "SendDebug (str @ 0 # rest) s = Some s1"
      "sent s s1 = [Drive True] @ concat (map (spec_frame_events CPU_CYCLES) str) @ [Drive True]"
    using SendDebug_terminated [OF nz, of rest s] by blast
  obtain s2 where s2: "SendDebug_p0 (str @ 0 # rest) s = Some s2"
      "sent s s2 = [Drive True] @ concat (map (spec_frame_events CPU_CYCLES_p0) str) @ [Drive True]"
    using SendDebug_p0_terminated [OF nz, of rest s] by blast
  have r1: "uart_rx (slot_levels (pin s) (sent s s1)) = Some str"
    unfolding s1(2) slot_levels_frames by (rule uart_rx_frames)
  have r2: "uart_rx (slot_levels (pin s) (sent s s2)) = Some str"
    unfolding s2(2) slot_levels_frames by (rule uart_rx_frames)
  from s1 s2 r1 r2 show ?thesis by blast
qed

theorem SendDebug_round_trip_witness:
  "printable 0x48 \<and> printable 0x69
   \<and> (\<exists>s'. SendDebug [0x48, 0x69, 0] \<lparr>PRIMASK = False, pin = False, trace = []\<rparr> = Some s'
         \<and> uart_rx (slot_levels False (sent \<lparr>PRIMASK = False, pin = False, trace = []\<rparr> s'))
             = Some [0x48, 0x69])"
proof -
  have h: "\<forall>c \<in> set [0x48, 0x69 :: u8]. printable c" by (simp add: printable_def)
  show ?thesis
    using h SendDebug_round_trip [OF h, of "[]" "\<lparr>PRIMASK = False, pin = False, trace = []\<rparr>"]
    by simp
qed

text \<open>
  C10. For every byte sequence that holds a NUL, SendDebug transmits exactly the bytes
  strictly before the first NUL and then returns; the NUL itself and the bytes after it
  are never emitted, so what the receiver decodes holds no zero byte. Both versions of
  the header.
\<close>

theorem SendDebug_stops_at_first_NUL:
  assumes "0 \<in> set bs"
  shows "(\<exists>s'. SendDebug bs s = Some s'
            \<and> sent s s' = [Drive True]
                 @ concat (map (spec_frame_events CPU_CYCLES) (takeWhile (\<lambda>b. b \<noteq> 0) bs))
                 @ [Drive True]
            \<and> uart_rx (slot_levels (pin s) (sent s s')) = Some (takeWhile (\<lambda>b. b \<noteq> 0) bs))
       \<and> (\<exists>s'. SendDebug_p0 bs s = Some s'
            \<and> sent s s' = [Drive True]
                 @ concat (map (spec_frame_events CPU_CYCLES_p0) (takeWhile (\<lambda>b. b \<noteq> 0) bs))
                 @ [Drive True]
            \<and> uart_rx (slot_levels (pin s) (sent s s')) = Some (takeWhile (\<lambda>b. b \<noteq> 0) bs))
       \<and> 0 \<notin> set (takeWhile (\<lambda>b. b \<noteq> 0) bs)"
proof -
  let ?pre = "takeWhile (\<lambda>b. b \<noteq> 0) bs"
  have nz: "0 \<notin> set ?pre" by (rule takeWhile_no_NUL)
  obtain rest where split: "bs = ?pre @ 0 # rest"
    using first_NUL_split [OF assms] by blast
  obtain s1 where s1: "SendDebug (?pre @ 0 # rest) s = Some s1"
      "sent s s1 = [Drive True] @ concat (map (spec_frame_events CPU_CYCLES) ?pre) @ [Drive True]"
    using SendDebug_terminated [OF nz, of rest s] by blast
  obtain s2 where s2: "SendDebug_p0 (?pre @ 0 # rest) s = Some s2"
      "sent s s2 = [Drive True] @ concat (map (spec_frame_events CPU_CYCLES_p0) ?pre) @ [Drive True]"
    using SendDebug_p0_terminated [OF nz, of rest s] by blast
  have r1: "uart_rx (slot_levels (pin s) (sent s s1)) = Some ?pre"
    unfolding s1(2) slot_levels_frames by (rule uart_rx_frames)
  have r2: "uart_rx (slot_levels (pin s) (sent s s2)) = Some ?pre"
    unfolding s2(2) slot_levels_frames by (rule uart_rx_frames)
  from s1(1) s2(1) have "SendDebug bs s = Some s1" "SendDebug_p0 bs s = Some s2"
    using split by simp_all
  with s1(2) s2(2) r1 r2 nz show ?thesis by blast
qed

theorem SendDebug_stops_at_first_NUL_witness:
  "0 \<in> set [0x48, 0, 0x69, 0 :: u8]
   \<and> (\<exists>s'. SendDebug [0x48, 0, 0x69, 0] \<lparr>PRIMASK = False, pin = False, trace = []\<rparr> = Some s'
         \<and> sent \<lparr>PRIMASK = False, pin = False, trace = []\<rparr> s'
             = [Drive True] @ spec_frame_events CPU_CYCLES 0x48 @ [Drive True])"
  using SendDebug_stops_at_first_NUL
    [of "[0x48, 0, 0x69, 0]" "\<lparr>PRIMASK = False, pin = False, trace = []\<rparr>"]
  by simp blast

end
